theory Spec2Isabelle
  imports Main
begin

section \<open>Go values: ints, panics and errors\<close>

text \<open>
  The program is Go, one file, \<open>main.go\<close>; the file also holds two earlier versions of
  the program after the current one, and the model follows the current one. Its
  \<open>int\<close> is the 64-bit two's-complement integer: a value is an
  \<open>int\<close> of HOL between \<open>- 2 ^ 63\<close> and \<open>2 ^ 63 - 1\<close>, and an addition of the source
  whose operands are not bounded by the program is followed by \<open>wrap64\<close>. Go's
  \<open>%\<close> truncates towards zero (the remainder has the sign of the dividend), unlike
  \<open>mod\<close> of HOL; it is \<open>go_rem\<close>, defined from the truncated quotient \<open>go_quo\<close> as the
  Go specification does (\<open>x = q * y + r\<close>).

  A run-time panic ends the program; a returned \<open>error\<close> is a value the caller
  receives. Both are results of the model: \<open>Inl\<close> of a sum.
\<close>

definition wrap64 :: "int \<Rightarrow> int" where
  "wrap64 x = (x + 2 ^ 63) mod 2 ^ 64 - 2 ^ 63"

definition go_quo :: "int \<Rightarrow> int \<Rightarrow> int" where
  "go_quo x y = sgn x * sgn y * (\<bar>x\<bar> div \<bar>y\<bar>)"

definition go_rem :: "int \<Rightarrow> int \<Rightarrow> int" where
  "go_rem x y = x - go_quo x y * y"

datatype panic = IndexOutOfRange | DivideByZero | MakesliceLenOutOfRange

datatype err = OutOfField | WrongInitSize | ColumnSizeNotAppropriate | EOF | ReadFileError

datatype failure = Panics panic | Returns err

text \<open>\<open>xs[i]\<close> of Go: a panic when \<open>i\<close> is not an index of the slice.\<close>

definition index :: "'a list \<Rightarrow> int \<Rightarrow> panic + 'a" where
  "index xs i = (if 0 \<le> i \<and> i < int (length xs) then Inr (xs ! nat i) else Inl IndexOutOfRange)"

section \<open>Field\<close>

record Field =
  cs :: "bool list list"
  w :: int
  h :: int

text \<open>
  \<open>NewField(h, w)\<close>: \<open>make\<close> panics on a negative length; the loop gives each of the
  \<open>h\<close> rows a zeroed slice of \<open>w\<close> cells (no row is made when \<open>h = 0\<close>). Running out of
  memory is outside the model: a HOL list has any length.
\<close>

definition NewField :: "int \<Rightarrow> int \<Rightarrow> panic + Field" where
  "NewField nh nw =
     (if nh < 0 then Inl MakesliceLenOutOfRange
      else if 0 < nh \<and> nw < 0 then Inl MakesliceLenOutOfRange
      else Inr \<lparr>cs = replicate (nat nh) (replicate (nat nw) False), w = nw, h = nh\<rparr>)"

text \<open>
  \<open>Set\<close> mutates the field through its pointer: the model returns the field after the
  call together with the returned error (\<open>None\<close> is \<open>nil\<close>). The write \<open>f.cs[r][c] = b\<close>
  panics when the slices are shorter than \<open>h\<close> and \<open>w\<close> say.
\<close>

definition Set :: "Field \<Rightarrow> int \<Rightarrow> int \<Rightarrow> bool \<Rightarrow> panic + (Field \<times> err option)" where
  "Set f r c b =
     (if r < 0 \<or> r \<ge> h f \<or> c < 0 \<or> c \<ge> w f then Inr (f, Some OutOfField)
      else (case index (cs f) r of
              Inl p \<Rightarrow> Inl p
            | Inr row \<Rightarrow>
                (if 0 \<le> c \<and> c < int (length row)
                 then Inr (f\<lparr>cs := (cs f)[nat r := row[nat c := b]]\<rparr>, None)
                 else Inl IndexOutOfRange)))"

text \<open>
  \<open>Alive\<close>: \<open>r = (r + f.h) % f.h\<close>, then the same for \<open>c\<close>, then \<open>f.cs[r][c]\<close>. The
  remainder by zero panics, and so does an index that the remainder left negative.
\<close>

definition Alive :: "Field \<Rightarrow> int \<Rightarrow> int \<Rightarrow> panic + bool" where
  "Alive f r c =
     (if h f = 0 then Inl DivideByZero
      else if w f = 0 then Inl DivideByZero
      else (case index (cs f) (go_rem (wrap64 (r + h f)) (h f)) of
              Inl p \<Rightarrow> Inl p
            | Inr row \<Rightarrow> index row (go_rem (wrap64 (c + w f)) (w f))))"

text \<open>
  \<open>NextGen\<close>: the two counting loops, \<open>i\<close> and \<open>j\<close> from \<open>-1\<close> while \<open>\<le> 1\<close> (the counters
  and \<open>alive\<close> stay below 9, so their increments need no wrap-around). \<open>&&\<close> and \<open>||\<close>
  evaluate their right operand only when needed, which decides whether \<open>Alive\<close> is
  called (and can panic).
\<close>

function NextGen_j :: "Field \<Rightarrow> int \<Rightarrow> int \<Rightarrow> int \<Rightarrow> int \<Rightarrow> int \<Rightarrow> panic + int" where
  "NextGen_j f r c i j alive =
     (if j \<le> 1 then
        (if i \<noteq> 0 \<or> j \<noteq> 0 then
           (case Alive f (wrap64 (r + i)) (wrap64 (c + j)) of
              Inl p \<Rightarrow> Inl p
            | Inr a \<Rightarrow> NextGen_j f r c i (j + 1) (if a then alive + 1 else alive))
         else NextGen_j f r c i (j + 1) alive)
      else Inr alive)"
  by pat_completeness auto
termination
  by (relation "measure (\<lambda>(f, r, c, i, j, alive). nat (2 - j))") auto

function NextGen_i :: "Field \<Rightarrow> int \<Rightarrow> int \<Rightarrow> int \<Rightarrow> int \<Rightarrow> panic + int" where
  "NextGen_i f r c i alive =
     (if i \<le> 1 then
        (case NextGen_j f r c i (- 1) alive of
           Inl p \<Rightarrow> Inl p
         | Inr alive' \<Rightarrow> NextGen_i f r c (i + 1) alive')
      else Inr alive)"
  by pat_completeness auto
termination
  by (relation "measure (\<lambda>(f, r, c, i, alive). nat (2 - i))") auto

definition NextGen :: "Field \<Rightarrow> int \<Rightarrow> int \<Rightarrow> panic + bool" where
  "NextGen f r c =
     (case NextGen_i f r c (- 1) 0 of
        Inl p \<Rightarrow> Inl p
      | Inr alive \<Rightarrow>
          (if alive = 3 then Inr True
           else if alive = 2 then Alive f r c
           else Inr False))"

section \<open>Life\<close>

record Life =
  cur :: Field
  "next" :: Field
  gen :: int

text \<open>
  \<open>NewLife\<close>: both fields are made first; \<open>len(init[0])\<close> is read only when
  \<open>len(init) != h\<close> is false, and panics on an empty \<open>init\<close>.
\<close>

definition NewLife :: "int \<Rightarrow> int \<Rightarrow> bool list list \<Rightarrow> failure + Life" where
  "NewLife nh nw init =
     (case NewField nh nw of
        Inl p \<Rightarrow> Inl (Panics p)
      | Inr cur0 \<Rightarrow>
          (case NewField nh nw of
             Inl p \<Rightarrow> Inl (Panics p)
           | Inr next0 \<Rightarrow>
               (if int (length init) \<noteq> nh then Inl (Returns WrongInitSize)
                else (case index init 0 of
                        Inl p \<Rightarrow> Inl (Panics p)
                      | Inr row0 \<Rightarrow>
                          (if int (length row0) \<noteq> nw then Inl (Returns WrongInitSize)
                           else Inr \<lparr>cur = cur0\<lparr>cs := init\<rparr>, next = next0, gen = 0\<rparr>)))))"

text \<open>
  \<open>Next\<close>: \<open>for i, r := range l.cur.cs\<close> and \<open>for j := range r\<close> walk the rows and the
  cells that \<open>l.cur.cs\<close> really has; the error \<open>Set\<close> returns is dropped. The loops
  read \<open>l.cur\<close> and write \<open>l.next\<close>; the argument \<open>NextGen(i, j)\<close> is evaluated before
  \<open>Set\<close> is called. Then \<open>l.cur = l.next\<close>, and the new \<open>l.next\<close> is
  \<open>NewField(l.cur.w, l.cur.h)\<close>: the width is passed where \<open>NewField\<close> takes the
  height.
\<close>

fun Next_row :: "Field \<Rightarrow> Field \<Rightarrow> int \<Rightarrow> int \<Rightarrow> bool list \<Rightarrow> panic + Field" where
  "Next_row fcur fnext i j [] = Inr fnext"
| "Next_row fcur fnext i j (x # xs) =
     (case NextGen fcur i j of
        Inl p \<Rightarrow> Inl p
      | Inr b \<Rightarrow>
          (case Set fnext i j b of
             Inl p \<Rightarrow> Inl p
           | Inr (fnext', e) \<Rightarrow> Next_row fcur fnext' i (j + 1) xs))"

fun Next_rows :: "Field \<Rightarrow> Field \<Rightarrow> int \<Rightarrow> bool list list \<Rightarrow> panic + Field" where
  "Next_rows fcur fnext i [] = Inr fnext"
| "Next_rows fcur fnext i (row # rows) =
     (case Next_row fcur fnext i 0 row of
        Inl p \<Rightarrow> Inl p
      | Inr fnext' \<Rightarrow> Next_rows fcur fnext' (i + 1) rows)"

definition Next :: "Life \<Rightarrow> panic + Life" where
  "Next l =
     (case Next_rows (cur l) (next l) 0 (cs (cur l)) of
        Inl p \<Rightarrow> Inl p
      | Inr fnext \<Rightarrow>
          (case NewField (w fnext) (h fnext) of
             Inl p \<Rightarrow> Inl p
           | Inr fresh \<Rightarrow> Inr \<lparr>cur = fnext, next = fresh, gen = wrap64 (gen l + 1)\<rparr>))"

text \<open>
  \<open>NewLifeFromFile\<close>. The file system is the parameter \<open>ReadFile\<close> (the result of
  \<open>ioutil.ReadFile\<close> for a path), and a reader over the bytes is the list of bytes not
  yet read. \<open>ReadBytes\<close> follows the documentation of \<open>bufio.Reader.ReadBytes\<close>: it
  returns the bytes up to and including the first delimiter, or, when the input ends
  before one, the bytes read so far together with \<open>io.EOF\<close>; it returns the reader left.

  In the source the loop's \<open>line, err :=\<close> declares a new \<open>err\<close>, so the function's own
  \<open>err\<close> is still \<open>nil\<close> after the loop and the test \<open>err != nil && err != io.EOF\<close>
  after it never holds; the loop ends at the first read that returns an error, which
  it drops together with the bytes of that read.
\<close>

definition newline :: char where
  "newline = CHR 0x0A"

fun ReadBytes :: "char \<Rightarrow> string \<Rightarrow> (string \<times> err option) \<times> string" where
  "ReadBytes delim [] = (([], Some EOF), [])"
| "ReadBytes delim (b # bs) =
     (if b = delim then (([b], None), bs)
      else (case ReadBytes delim bs of ((line, e), reader) \<Rightarrow> ((b # line, e), reader)))"

lemma ReadBytes_consumes:
  "ReadBytes delim reader = ((line, None), reader') \<Longrightarrow> length reader' < length reader"
  by (induction reader arbitrary: line) (auto split: if_splits prod.splits)

fun bytesToBool :: "string \<Rightarrow> bool list" where
  "bytesToBool [] = []"
| "bytesToBool (c # line) = (if c = CHR ''o'' then True else False) # bytesToBool line"

function read_rows :: "int \<Rightarrow> string \<Rightarrow> bool list list \<Rightarrow> failure + bool list list" where
  "read_rows colsize reader init =
     (case ReadBytes newline reader of
        ((line, Some e), reader') \<Rightarrow> Inr init
      | ((line, None), reader') \<Rightarrow>
          (if int (length line) \<noteq> colsize then Inl (Returns ColumnSizeNotAppropriate)
           else read_rows colsize reader' (init @ [bytesToBool line])))"
  by pat_completeness auto
termination
  by (relation "measure (\<lambda>(colsize, reader, init). length reader)")
    (auto dest: ReadBytes_consumes [OF sym])

definition NewLifeFromFile :: "(string \<Rightarrow> err + string) \<Rightarrow> string \<Rightarrow> failure + Life" where
  "NewLifeFromFile ReadFile path =
     (case ReadFile path of
        Inl e \<Rightarrow> Inl (Returns e)
      | Inr buf \<Rightarrow>
          (case ReadBytes newline buf of
             ((line, Some e), reader) \<Rightarrow> Inl (Returns e)
           | ((line, None), reader) \<Rightarrow>
               (case read_rows (int (length line)) reader ([] @ [bytesToBool line]) of
                  Inl e \<Rightarrow> Inl e
                | Inr init \<Rightarrow> NewLife (int (length init)) (int (length line)) init)))"

section \<open>The vocabulary of the specification\<close>

text \<open>
  The data model of a field: \<open>cs\<close> has \<open>h\<close> rows of \<open>w\<close> cells each. \<open>NewField\<close>
  gives such a field; \<open>NewLife\<close> stores the caller's pattern in \<open>cs\<close> as it is.
\<close>

definition rect :: "Field \<Rightarrow> bool" where
  "rect f \<longleftrightarrow>
     int (length (cs f)) = h f \<and> list_all (\<lambda>row. int (length row) = w f) (cs f)"

text \<open>
  The sums \<open>r + f.h\<close> and \<open>c + f.w\<close> of \<open>Alive\<close>, for a cell of the field or one of its
  neighbours, stay inside 64 bits when the dimensions are below \<open>2 ^ 62\<close>. Every field
  that fits the address space of the machine is that small.
\<close>

definition fits :: "Field \<Rightarrow> bool" where
  "fits f \<longleftrightarrow> h f < 2 ^ 62 \<and> w f < 2 ^ 62"

text \<open>
  The rule of the specification, in its words: the eight neighbours of a cell on the
  torus (the cell itself is not one of them), the number of them that are alive, and
  the state of the cell in the next generation.
\<close>

definition neighbours :: "(int \<times> int) list" where
  "neighbours = [(- 1, - 1), (- 1, 0), (- 1, 1), (0, - 1), (0, 1), (1, - 1), (1, 0), (1, 1)]"

definition torus_cell :: "Field \<Rightarrow> int \<Rightarrow> int \<Rightarrow> bool" where
  "torus_cell f r c = cs f ! nat (r mod h f) ! nat (c mod w f)"

definition live_neighbours :: "Field \<Rightarrow> int \<Rightarrow> int \<Rightarrow> nat" where
  "live_neighbours f r c =
     length (filter (\<lambda>(i, j). torus_cell f (r + i) (c + j)) neighbours)"

definition will_be_alive :: "Field \<Rightarrow> int \<Rightarrow> int \<Rightarrow> bool" where
  "will_be_alive f r c \<longleftrightarrow>
     live_neighbours f r c = 3 \<or> live_neighbours f r c = 2 \<and> cs f ! nat r ! nat c"

text \<open>The whole next generation of a field, cell by cell.\<close>

definition next_table :: "Field \<Rightarrow> bool list list" where
  "next_table f =
     map (\<lambda>i. map (\<lambda>j. will_be_alive f (int i) (int j)) [0..<nat (w f)]) [0..<nat (h f)]"

text \<open>A text made of lines, each followed by its line terminator.\<close>

definition lines_text :: "string list \<Rightarrow> string" where
  "lines_text ls = concat (map (\<lambda>l. l @ [newline]) ls)"

text \<open>
  The beacon on an \<open>n x n\<close> grid: its six cells (the cells the earlier \<open>main\<close> of the
  program sets in its 10 x 10 pattern), and the eight cells of its other phase. \<open>pattern\<close>
  is the \<open>[][]bool\<close> of a set of cells.
\<close>

definition beacon :: "int \<Rightarrow> int \<Rightarrow> bool" where
  "beacon r c \<longleftrightarrow> (r, c) \<in> set [(1, 1), (1, 2), (2, 1), (3, 4), (4, 3), (4, 4)]"

definition beacon_full :: "int \<Rightarrow> int \<Rightarrow> bool" where
  "beacon_full r c \<longleftrightarrow>
     (r, c) \<in> set [(1, 1), (1, 2), (2, 1), (2, 2), (3, 3), (3, 4), (4, 3), (4, 4)]"

definition pattern :: "nat \<Rightarrow> (int \<Rightarrow> int \<Rightarrow> bool) \<Rightarrow> bool list list" where
  "pattern n p = map (\<lambda>i. map (\<lambda>j. p (int i) (int j)) [0..<n]) [0..<n]"

text \<open>
  The rule on the unbounded plane, without wrap-around, and the patterns that stay
  inside rows and columns 1 to 4.
\<close>

definition plane_count :: "(int \<Rightarrow> int \<Rightarrow> bool) \<Rightarrow> int \<Rightarrow> int \<Rightarrow> nat" where
  "plane_count p r c = length (filter (\<lambda>(i, j). p (r + i) (c + j)) neighbours)"

definition plane_next :: "(int \<Rightarrow> int \<Rightarrow> bool) \<Rightarrow> int \<Rightarrow> int \<Rightarrow> bool" where
  "plane_next p r c \<longleftrightarrow> plane_count p r c = 3 \<or> plane_count p r c = 2 \<and> p r c"

definition inside_box :: "(int \<Rightarrow> int \<Rightarrow> bool) \<Rightarrow> bool" where
  "inside_box p \<longleftrightarrow> (\<forall>r c. p r c \<longrightarrow> 1 \<le> r \<and> r \<le> 4 \<and> 1 \<le> c \<and> c \<le> 4)"

section \<open>Integers and indexing\<close>

lemma wrap64_id: "- (2 ^ 63) \<le> x \<Longrightarrow> x < 2 ^ 63 \<Longrightarrow> wrap64 x = x"
  by (simp add: wrap64_def)

lemma go_rem_nonneg: "0 \<le> x \<Longrightarrow> 0 < y \<Longrightarrow> go_rem x y = x mod y"
  by (cases "x = 0") (simp_all add: go_rem_def go_quo_def minus_div_mult_eq_mod)

lemma go_rem_neg: "x < 0 \<Longrightarrow> 0 < y \<Longrightarrow> go_rem x y = - ((- x) mod y)"
proof -
  assume a: "x < 0" "0 < y"
  have "x + y * (- x div y) = - (- x mod y)"
    using mult_div_mod_eq [of y "- x"] by linarith
  then show ?thesis using a by (simp add: go_rem_def go_quo_def algebra_simps)
qed

text \<open>
  The index formula of the specification, \<open>((row mod height) + height) mod height\<close>
  with the truncating remainder, is the mathematical \<open>mod\<close>.
\<close>

lemma go_rem_twice:
  assumes "0 < y"
  shows "go_rem (go_rem x y + y) y = x mod y"
proof (cases "0 \<le> x")
  case True
  then have "go_rem x y = x mod y" using assms by (simp add: go_rem_nonneg)
  moreover have "0 \<le> x mod y + y" using assms by (simp add: add_nonneg_nonneg)
  ultimately show ?thesis using assms by (simp add: go_rem_nonneg)
next
  case False
  then have 1: "go_rem x y = - ((- x) mod y)" using assms by (simp add: go_rem_neg)
  have "(- x) mod y < y" using assms by simp
  then have 2: "0 \<le> - ((- x) mod y) + y" by simp
  have "(- ((- x) mod y) + y) mod y = (- ((- x) mod y)) mod y" by simp
  also have "\<dots> = (- (- x)) mod y" by (simp only: mod_minus_eq)
  finally show ?thesis using assms 1 2 by (simp add: go_rem_nonneg)
qed

lemma rect_row: "rect f \<Longrightarrow> 0 \<le> i \<Longrightarrow> i < h f \<Longrightarrow> int (length (cs f ! nat i)) = w f"
  by (auto simp: rect_def list_all_length)

lemma rect_rows: "rect f \<Longrightarrow> int (length (cs f)) = h f"
  by (simp add: rect_def)

section \<open>Alive and Set\<close>

lemma Alive_wrapped:
  assumes "rect f" "0 < h f" "0 < w f"
    and "- h f \<le> r" "r + h f < 2 ^ 63" "- w f \<le> c" "c + w f < 2 ^ 63"
  shows "Alive f r c = Inr (cs f ! nat (r mod h f) ! nat (c mod w f))"
proof -
  have r: "go_rem (wrap64 (r + h f)) (h f) = r mod h f"
    using assms by (simp add: wrap64_id go_rem_nonneg)
  have c: "go_rem (wrap64 (c + w f)) (w f) = c mod w f"
    using assms by (simp add: wrap64_id go_rem_nonneg)
  have r': "0 \<le> r mod h f" "r mod h f < h f" using assms by simp_all
  have c': "0 \<le> c mod w f" "c mod w f < w f" using assms by simp_all
  show ?thesis
    using assms r' c' rect_row [OF assms(1) r'] rect_rows [OF assms(1)]
    by (simp add: Alive_def r c index_def)
qed

lemma Set_outside:
  "r < 0 \<or> h f \<le> r \<or> c < 0 \<or> w f \<le> c \<Longrightarrow> Set f r c b = Inr (f, Some OutOfField)"
  by (auto simp: Set_def)

lemma Set_inside:
  assumes "rect f" "0 \<le> r" "r < h f" "0 \<le> c" "c < w f"
  shows "Set f r c b = Inr (f\<lparr>cs := (cs f)[nat r := (cs f ! nat r)[nat c := b]]\<rparr>, None)"
  using assms rect_row [of f r] rect_rows [of f]
  by (simp add: Set_def index_def)

lemma rect_Set:
  assumes "rect f"
  shows "rect (f\<lparr>cs := (cs f)[nat r := (cs f ! nat r)[nat c := b]]\<rparr>)"
proof (cases "nat r < length (cs f)")
  case True
  then show ?thesis using assms
    by (auto simp: rect_def list_all_length nth_list_update)
next
  case False
  then show ?thesis using assms by (simp add: rect_def list_update_beyond)
qed

text \<open>
  C4, as the code has it. \<open>Alive\<close> adds the dimension once before it takes the
  remainder, so it wraps a row from \<open>- h\<close> upwards and a column from \<open>- w\<close> upwards (as
  long as the sums stay inside 64 bits); there it never fails, it reads the cell at
  \<open>row mod h\<close>, \<open>col mod w\<close>, which is the index
  \<open>((row mod h) + h) mod h\<close> of the specification, and it has the periods \<open>h\<close> and \<open>w\<close>.
\<close>

theorem Alive_periodic_from_minus_dimension:
  assumes "rect f" "0 < h f" "0 < w f"
    and "- h f \<le> r" "r + 2 * h f < 2 ^ 63" "- w f \<le> c" "c + 2 * w f < 2 ^ 63"
  shows "Alive f r c = Inr (cs f ! nat (r mod h f) ! nat (c mod w f))
       \<and> Alive f (r + h f) c = Alive f r c
       \<and> Alive f r (c + w f) = Alive f r c
       \<and> r mod h f = go_rem (go_rem r (h f) + h f) (h f)
       \<and> c mod w f = go_rem (go_rem c (w f) + w f) (w f)"
proof -
  have a: "Alive f r c = Inr (cs f ! nat (r mod h f) ! nat (c mod w f))"
    using assms by (intro Alive_wrapped) simp_all
  have b: "Alive f (r + h f) c = Inr (cs f ! nat ((r + h f) mod h f) ! nat (c mod w f))"
    using assms by (intro Alive_wrapped) simp_all
  have c: "Alive f r (c + w f) = Inr (cs f ! nat (r mod h f) ! nat ((c + w f) mod w f))"
    using assms by (intro Alive_wrapped) simp_all
  show ?thesis using a b c assms by (simp add: go_rem_twice)
qed

theorem Alive_periodic_witness:
  "rect \<lparr>cs = [[True, False, False], [False, False, True]], w = 3, h = 2\<rparr>
   \<and> Alive \<lparr>cs = [[True, False, False], [False, False, True]], w = 3, h = 2\<rparr> (- 1) (- 1) = Inr True
   \<and> Alive \<lparr>cs = [[True, False, False], [False, False, True]], w = 3, h = 2\<rparr> 1 (- 1) = Inr True
   \<and> Alive \<lparr>cs = [[True, False, False], [False, False, True]], w = 3, h = 2\<rparr> (- 1) 2 = Inr True"
proof -
  let ?f = "\<lparr>cs = [[True, False, False], [False, False, True]], w = 3, h = 2\<rparr>"
  have r: "rect ?f" by (simp add: rect_def)
  have "Alive ?f (- 1) (- 1) = Inr (cs ?f ! nat (- 1 mod h ?f) ! nat (- 1 mod w ?f))
      \<and> Alive ?f (- 1 + h ?f) (- 1) = Alive ?f (- 1) (- 1)
      \<and> Alive ?f (- 1) (- 1 + w ?f) = Alive ?f (- 1) (- 1)
      \<and> - 1 mod h ?f = go_rem (go_rem (- 1) (h ?f) + h ?f) (h ?f)
      \<and> - 1 mod w ?f = go_rem (go_rem (- 1) (w ?f) + w ?f) (w ?f)"
    by (rule Alive_periodic_from_minus_dimension [OF r]) simp_all
  then show ?thesis using r by simp
qed

text \<open>
  C4 as the specification words it, for all integers, fails one row further down: on
  a 2 x 2 field, row \<open>- 3\<close> gives \<open>(- 3 + 2) % 2 = - 1\<close> and the index panics.
\<close>

theorem Alive_below_minus_height_panics:
  "Alive \<lparr>cs = [[False, False], [False, False]], w = 2, h = 2\<rparr> (- 3) 0 = Inl IndexOutOfRange"
  by (simp add: Alive_def wrap64_def go_rem_def go_quo_def index_def)

text \<open>
  The upper end of the range: at the largest \<open>int\<close> the sum \<open>r + f.h\<close> wraps to a
  negative number and the index panics as well.
\<close>

lemma Alive_at_max_int_panics:
  "Alive \<lparr>cs = [[False, False], [False, False]], w = 2, h = 2\<rparr> (2 ^ 63 - 1) 0
     = Inl IndexOutOfRange"
  by (simp add: Alive_def wrap64_def go_rem_def go_quo_def index_def)

text \<open>
  C8. A write outside \<open>[0, h) x [0, w)\<close> returns the error and the field as it was
  (nothing wraps), whatever the field; a write inside a field of the data model
  returns no error, and \<open>Alive\<close> at the same coordinates then reads the written value.
\<close>

theorem Set_rejects_outside_and_reads_back:
  "(r < 0 \<or> h f \<le> r \<or> c < 0 \<or> w f \<le> c \<longrightarrow> Set f r c b = Inr (f, Some OutOfField))
   \<and> (rect f \<and> fits f \<and> 0 \<le> r \<and> r < h f \<and> 0 \<le> c \<and> c < w f \<longrightarrow>
        (\<exists>f'. Set f r c b = Inr (f', None) \<and> Alive f' r c = Inr b))"
proof (intro conjI impI)
  assume "r < 0 \<or> h f \<le> r \<or> c < 0 \<or> w f \<le> c"
  then show "Set f r c b = Inr (f, Some OutOfField)" by (rule Set_outside)
next
  assume a: "rect f \<and> fits f \<and> 0 \<le> r \<and> r < h f \<and> 0 \<le> c \<and> c < w f"
  let ?f' = "f\<lparr>cs := (cs f)[nat r := (cs f ! nat r)[nat c := b]]\<rparr>"
  have s: "Set f r c b = Inr (?f', None)" using a by (simp add: Set_inside)
  have "rect ?f'" using a by (simp add: rect_Set)
  then have "Alive ?f' r c = Inr (cs ?f' ! nat (r mod h ?f') ! nat (c mod w ?f'))"
    using a by (intro Alive_wrapped) (simp_all add: fits_def)
  moreover have "nat r < length (cs f)" "nat c < length (cs f ! nat r)"
    using a rect_rows [of f] rect_row [of f r] by (simp_all add: nat_less_iff)
  ultimately have "Alive ?f' r c = Inr b" using a by simp
  with s show "\<exists>f'. Set f r c b = Inr (f', None) \<and> Alive f' r c = Inr b" by blast
qed

theorem Set_rejects_outside_and_reads_back_witness:
  "Set \<lparr>cs = [[False, False, False], [False, False, False]], w = 3, h = 2\<rparr> 2 0 True
     = Inr (\<lparr>cs = [[False, False, False], [False, False, False]], w = 3, h = 2\<rparr>, Some OutOfField)
   \<and> Set \<lparr>cs = [[False, False, False], [False, False, False]], w = 3, h = 2\<rparr> 0 (- 1) True
     = Inr (\<lparr>cs = [[False, False, False], [False, False, False]], w = 3, h = 2\<rparr>, Some OutOfField)
   \<and> rect \<lparr>cs = [[False, False, False], [False, False, False]], w = 3, h = 2\<rparr>
   \<and> fits \<lparr>cs = [[False, False, False], [False, False, False]], w = 3, h = 2\<rparr>
   \<and> (\<exists>f'. Set \<lparr>cs = [[False, False, False], [False, False, False]], w = 3, h = 2\<rparr> 1 2 True
               = Inr (f', None) \<and> Alive f' 1 2 = Inr True)"
proof -
  let ?f = "\<lparr>cs = [[False, False, False], [False, False, False]], w = 3, h = 2\<rparr>"
  have r: "rect ?f" "fits ?f" by (simp_all add: rect_def fits_def)
  show ?thesis
    using Set_rejects_outside_and_reads_back [of 2 ?f 0 True]
      Set_rejects_outside_and_reads_back [of 0 ?f "- 1" True]
      Set_rejects_outside_and_reads_back [of 1 ?f 2 True] r
    by simp
qed

section \<open>NextGen\<close>

declare NextGen_j.simps [simp del] NextGen_i.simps [simp del]

lemma Alive_neighbour:
  assumes "rect f" "fits f" "0 \<le> r" "r < h f" "0 \<le> c" "c < w f"
    and "- 1 \<le> i" "i \<le> 1" "- 1 \<le> j" "j \<le> 1"
  shows "Alive f (wrap64 (r + i)) (wrap64 (c + j)) = Inr (torus_cell f (r + i) (c + j))"
proof -
  have b: "h f < 2 ^ 62" "w f < 2 ^ 62" using assms by (simp_all add: fits_def)
  have "wrap64 (r + i) = r + i" "wrap64 (c + j) = c + j"
    using assms b by (simp_all add: wrap64_id)
  moreover have "Alive f (r + i) (c + j) = Inr (cs f ! nat ((r + i) mod h f) ! nat ((c + j) mod w f))"
    using assms b by (intro Alive_wrapped) simp_all
  ultimately show ?thesis by (simp add: torus_cell_def)
qed

text \<open>The inner loop, run from \<open>j = - 1\<close>: three steps, the middle one skipped in the cell's own row.\<close>

lemma NextGen_j_unrolled:
  assumes "rect f" "fits f" "0 \<le> r" "r < h f" "0 \<le> c" "c < w f" "- 1 \<le> i" "i \<le> 1"
  shows "NextGen_j f r c i (- 1) a =
     Inr (a + of_bool (torus_cell f (r + i) (c + - 1))
            + (if i = 0 then 0 else of_bool (torus_cell f (r + i) (c + 0)))
            + of_bool (torus_cell f (r + i) (c + 1)))"
proof -
  have A: "\<And>i j. - 1 \<le> i \<Longrightarrow> i \<le> 1 \<Longrightarrow> - 1 \<le> j \<Longrightarrow> j \<le> 1 \<Longrightarrow>
      Alive f (wrap64 (r + i)) (wrap64 (c + j)) = Inr (torus_cell f (r + i) (c + j))"
    using assms by (intro Alive_neighbour) simp_all
  have 3: "\<And>i b. NextGen_j f r c i 2 b = Inr b"
    by (simp add: NextGen_j.simps [of _ _ _ _ 2])
  have 2: "\<And>i b. - 1 \<le> i \<Longrightarrow> i \<le> 1 \<Longrightarrow>
      NextGen_j f r c i 1 b = Inr (b + of_bool (torus_cell f (r + i) (c + 1)))"
    using A [of _ 1] by (subst NextGen_j.simps) (simp add: 3)
  have 1: "\<And>i b. - 1 \<le> i \<Longrightarrow> i \<le> 1 \<Longrightarrow> NextGen_j f r c i 0 b =
      Inr (b + (if i = 0 then 0 else of_bool (torus_cell f (r + i) (c + 0)))
             + of_bool (torus_cell f (r + i) (c + 1)))"
    using A [of _ 0] by (subst NextGen_j.simps) (simp add: 2)
  show ?thesis
    using A [of i "- 1"] assms(7,8) by (subst NextGen_j.simps) (simp add: 1)
qed

lemma length_filter_of_bool:
  "int (length (filter P xs)) = (\<Sum>x\<leftarrow>xs. of_bool (P x))"
  by (induction xs) simp_all

text \<open>The outer loop: the counter ends as the number of live neighbours.\<close>

lemma NextGen_i_count:
  assumes "rect f" "fits f" "0 \<le> r" "r < h f" "0 \<le> c" "c < w f"
  shows "NextGen_i f r c (- 1) 0 = Inr (int (live_neighbours f r c))"
proof -
  have J: "\<And>i a. - 1 \<le> i \<Longrightarrow> i \<le> 1 \<Longrightarrow> NextGen_j f r c i (- 1) a =
     Inr (a + of_bool (torus_cell f (r + i) (c + - 1))
            + (if i = 0 then 0 else of_bool (torus_cell f (r + i) (c + 0)))
            + of_bool (torus_cell f (r + i) (c + 1)))"
    using assms by (intro NextGen_j_unrolled) simp_all
  have 3: "\<And>b. NextGen_i f r c 2 b = Inr b"
    by (simp add: NextGen_i.simps [of _ _ _ 2])
  have 2: "\<And>b. NextGen_i f r c 1 b = Inr (b + of_bool (torus_cell f (r + 1) (c + - 1))
            + of_bool (torus_cell f (r + 1) (c + 0))
            + of_bool (torus_cell f (r + 1) (c + 1)))"
    using J [of 1] by (subst NextGen_i.simps) (simp add: 3)
  have 1: "\<And>b. NextGen_i f r c 0 b = Inr (b + of_bool (torus_cell f (r + 0) (c + - 1))
            + of_bool (torus_cell f (r + 0) (c + 1))
            + of_bool (torus_cell f (r + 1) (c + - 1))
            + of_bool (torus_cell f (r + 1) (c + 0))
            + of_bool (torus_cell f (r + 1) (c + 1)))"
    using J [of 0] by (subst NextGen_i.simps) (simp add: 2)
  have 0: "NextGen_i f r c (- 1) 0 = Inr (of_bool (torus_cell f (r + - 1) (c + - 1))
            + of_bool (torus_cell f (r + - 1) (c + 0))
            + of_bool (torus_cell f (r + - 1) (c + 1))
            + of_bool (torus_cell f (r + 0) (c + - 1))
            + of_bool (torus_cell f (r + 0) (c + 1))
            + of_bool (torus_cell f (r + 1) (c + - 1))
            + of_bool (torus_cell f (r + 1) (c + 0))
            + of_bool (torus_cell f (r + 1) (c + 1)))"
    using J [of "- 1"] by (subst NextGen_i.simps) (simp add: 1)
  show ?thesis
    unfolding 0 live_neighbours_def length_filter_of_bool neighbours_def
    by simp
qed

lemma NextGen_will_be_alive:
  assumes "rect f" "fits f" "0 \<le> r" "r < h f" "0 \<le> c" "c < w f"
  shows "NextGen f r c = Inr (will_be_alive f r c)"
proof -
  have "Alive f r c = Inr (cs f ! nat (r mod h f) ! nat (c mod w f))"
    using assms by (intro Alive_wrapped) (simp_all add: fits_def)
  then have "Alive f r c = Inr (cs f ! nat r ! nat c)"
    using assms by simp
  then show ?thesis
    using assms by (simp add: NextGen_def NextGen_i_count will_be_alive_def)
qed

text \<open>
  C1. On a field of the data model (\<open>rect\<close>, with dimensions that leave the sums of
  \<open>Alive\<close> inside an \<open>int\<close>) and a cell inside it, \<open>NextGen\<close> returns (it does
  not panic) and its value is true exactly when the number of live cells among the
  eight neighbours on the torus is 3, or is 2 and the cell itself is alive. \<open>NextGen\<close>
  and \<open>Alive\<close> contain no assignment through \<open>f\<close>: the model takes the field as a value
  and returns the boolean only, so the field after the call is the field before it.
\<close>

theorem NextGen_rule:
  assumes "rect f" "fits f" "0 \<le> r" "r < h f" "0 \<le> c" "c < w f"
  shows "NextGen f r c =
     Inr (live_neighbours f r c = 3 \<or> live_neighbours f r c = 2 \<and> cs f ! nat r ! nat c)"
  using NextGen_will_be_alive [OF assms] by (simp add: will_be_alive_def)

theorem NextGen_rule_witness:
  "rect \<lparr>cs = [[False, True, False, False], [False, True, False, False], [False, True, False, False]],
         w = 4, h = 3\<rparr>
   \<and> fits \<lparr>cs = [[False, True, False, False], [False, True, False, False], [False, True, False, False]],
         w = 4, h = 3\<rparr>
   \<and> NextGen \<lparr>cs = [[False, True, False, False], [False, True, False, False], [False, True, False, False]],
         w = 4, h = 3\<rparr> 1 2 = Inr True
   \<and> NextGen \<lparr>cs = [[False, True, False, False], [False, True, False, False], [False, True, False, False]],
         w = 4, h = 3\<rparr> 0 3 = Inr False"
proof -
  let ?f = "\<lparr>cs = [[False, True, False, False], [False, True, False, False], [False, True, False, False]],
         w = 4, h = 3\<rparr>"
  have r: "rect ?f" "fits ?f" by (simp_all add: rect_def fits_def)
  have "NextGen ?f 1 2 =
     Inr (live_neighbours ?f 1 2 = 3 \<or> live_neighbours ?f 1 2 = 2 \<and> cs ?f ! nat 1 ! nat 2)"
    by (rule NextGen_rule [OF r]) simp_all
  moreover have "NextGen ?f 0 3 =
     Inr (live_neighbours ?f 0 3 = 3 \<or> live_neighbours ?f 0 3 = 2 \<and> cs ?f ! nat 0 ! nat 3)"
    by (rule NextGen_rule [OF r]) simp_all
  ultimately show ?thesis
    using r by (simp add: live_neighbours_def neighbours_def torus_cell_def)
qed

section \<open>Next\<close>

text \<open>
  The inner loop of \<open>Next\<close>, from column \<open>j\<close> of row \<open>i\<close>: the cells from \<open>j\<close> on are
  overwritten with the next generation of the current field, when the field written
  to has the shape of the field read.
\<close>

lemma Next_row_writes:
  assumes "rect fc" "fits fc" "rect fn" "h fn = h fc" "w fn = w fc"
    and "0 \<le> i" "i < h fc" "0 \<le> j" "j + int (length xs) = w fc"
  shows "Next_row fc fn i j xs =
     Inr (fn\<lparr>cs := (cs fn)[nat i :=
            take (nat j) (cs fn ! nat i) @ map (\<lambda>k. will_be_alive fc i (int k)) [nat j..<nat (w fc)]]\<rparr>)"
  using assms
proof (induction xs arbitrary: fn j)
  case Nil
  then have "int (length (cs fn ! nat i)) = w fc"
    using rect_row [of fn i] by simp
  then show ?case using Nil by simp
next
  case (Cons x xs)
  let ?b = "will_be_alive fc i j"
  let ?fn' = "fn\<lparr>cs := (cs fn)[nat i := (cs fn ! nat i)[nat j := ?b]]\<rparr>"
  have jw: "j < w fc" using Cons.prems by simp
  have ng: "NextGen fc i j = Inr ?b"
    using Cons.prems jw by (intro NextGen_will_be_alive) simp_all
  have st: "Set fn i j ?b = Inr (?fn', None)"
    using Cons.prems jw by (intro Set_inside) simp_all
  have r': "rect ?fn'" using Cons.prems by (simp add: rect_Set)
  have IH: "Next_row fc ?fn' i (j + 1) xs =
     Inr (?fn'\<lparr>cs := (cs ?fn')[nat i :=
            take (nat (j + 1)) (cs ?fn' ! nat i) @ map (\<lambda>k. will_be_alive fc i (int k)) [nat (j + 1)..<nat (w fc)]]\<rparr>)"
    using Cons.prems r' by (intro Cons.IH) simp_all
  have li: "nat i < length (cs fn)"
    using Cons.prems rect_rows [of fn] by (simp add: nat_less_iff)
  have lj: "nat j < length (cs fn ! nat i)"
    using Cons.prems jw rect_row [of fn i] by (simp add: nat_less_iff)
  have n1: "nat (j + 1) = Suc (nat j)" using Cons.prems by (simp add: nat_add_distrib)
  have up: "[nat j..<nat (w fc)] = nat j # [Suc (nat j)..<nat (w fc)]"
    using jw Cons.prems by (simp add: upt_conv_Cons nat_less_iff)
  have tk: "take (Suc (nat j)) ((cs fn ! nat i)[nat j := ?b]) = take (nat j) (cs fn ! nat i) @ [?b]"
    using lj by (simp add: take_Suc_conv_app_nth)
  show ?case
    using ng st IH li Cons.prems(8) by (simp add: n1 up tk)
qed


lemma rect_update_row:
  assumes "rect f" "int (length row) = w f"
  shows "rect (f\<lparr>cs := (cs f)[k := row]\<rparr>)"
proof (cases "k < length (cs f)")
  case True
  then show ?thesis using assms
    by (auto simp: rect_def list_all_length nth_list_update)
next
  case False
  then show ?thesis using assms by (simp add: rect_def list_update_beyond)
qed

lemma Next_rows_writes:
  assumes "rect fc" "fits fc" "rect fn" "h fn = h fc" "w fn = w fc" "0 \<le> w fc"
    and "0 \<le> i" "i + int (length rows) = h fc"
    and "list_all (\<lambda>row. int (length row) = w fc) rows"
  shows "Next_rows fc fn i rows =
     Inr (fn\<lparr>cs := take (nat i) (cs fn) @
            map (\<lambda>k. map (\<lambda>j. will_be_alive fc (int k) (int j)) [0..<nat (w fc)])
              [nat i..<nat (h fc)]\<rparr>)"
  using assms
proof (induction rows arbitrary: fn i)
  case Nil
  then have "nat i = length (cs fn)" using rect_rows [of fn] by simp
  then show ?case using Nil by simp
next
  case (Cons row rows)
  let ?new = "map (\<lambda>j. will_be_alive fc i (int j)) [0..<nat (w fc)]"
  let ?fn' = "fn\<lparr>cs := (cs fn)[nat i := ?new]\<rparr>"
  have ih: "i < h fc" using Cons.prems by simp
  have row: "Next_row fc fn i 0 row = Inr ?fn'"
    using Cons.prems ih Next_row_writes [of fc fn i 0 row] by simp
  have r': "rect ?fn'"
    using Cons.prems by (intro rect_update_row) simp_all
  have IH: "Next_rows fc ?fn' (i + 1) rows =
     Inr (?fn'\<lparr>cs := take (nat (i + 1)) (cs ?fn') @
            map (\<lambda>k. map (\<lambda>j. will_be_alive fc (int k) (int j)) [0..<nat (w fc)])
              [nat (i + 1)..<nat (h fc)]\<rparr>)"
    using Cons.prems r' by (intro Cons.IH) simp_all
  have li: "nat i < length (cs fn)"
    using Cons.prems ih rect_rows [of fn] by (simp add: nat_less_iff)
  have n1: "nat (i + 1) = Suc (nat i)" using Cons.prems by (simp add: nat_add_distrib)
  have up: "[nat i..<nat (h fc)] = nat i # [Suc (nat i)..<nat (h fc)]"
    using ih Cons.prems by (simp add: upt_conv_Cons nat_less_iff)
  have tk: "take (Suc (nat i)) ((cs fn)[nat i := ?new]) = take (nat i) (cs fn) @ [?new]"
    using li by (simp add: take_Suc_conv_app_nth)
  show ?case
    using row IH Cons.prems(7) by (simp add: n1 up tk)
qed

text \<open>
  One call of \<open>Next\<close> on a life whose two fields have the same shape: every cell of
  the new current field is the value \<open>NextGen\<close> computes on the old one, and the new
  \<open>next\<close> field has the two dimensions exchanged.
\<close>

lemma Next_step:
  assumes "rect (cur l)" "fits (cur l)" "rect (next l)"
    and "h (next l) = h (cur l)" "w (next l) = w (cur l)" "0 \<le> w (cur l)"
  shows "Next l =
     Inr \<lparr>cur = \<lparr>cs = next_table (cur l), w = w (cur l), h = h (cur l)\<rparr>,
          next = \<lparr>cs = replicate (nat (w (cur l))) (replicate (nat (h (cur l))) False),
                  w = h (cur l), h = w (cur l)\<rparr>,
          gen = wrap64 (gen l + 1)\<rparr>"
proof -
  have all: "list_all (\<lambda>row. int (length row) = w (cur l)) (cs (cur l))"
    using assms(1) by (simp add: rect_def)
  have len: "0 + int (length (cs (cur l))) = h (cur l)"
    using assms(1) by (simp add: rect_def)
  have rows: "Next_rows (cur l) (next l) 0 (cs (cur l)) =
      Inr ((next l)\<lparr>cs := next_table (cur l)\<rparr>)"
    using Next_rows_writes [OF assms(1,2,3,4,5,6) _ len all]
    by (simp add: next_table_def)
  have h0: "0 \<le> h (cur l)" using len by simp
  have eq: "(next l)\<lparr>cs := next_table (cur l)\<rparr> = \<lparr>cs = next_table (cur l), w = w (cur l), h = h (cur l)\<rparr>"
    using assms(4,5) by (cases "next l") simp
  show ?thesis
    using assms(6) h0 by (simp add: Next_def rows eq NewField_def)
qed

text \<open>
  The shapes after the call: the current field keeps its shape, and the \<open>next\<close> field
  has the height and the width of the current field exchanged. The two fields have
  the same shape again exactly when the grid is square.
\<close>

lemma rect_next_table:
  "0 \<le> h f \<Longrightarrow> 0 \<le> w f \<Longrightarrow> rect \<lparr>cs = next_table f, w = w f, h = h f\<rparr>"
  by (simp add: rect_def next_table_def list_all_iff)

lemma Next_shapes:
  assumes "rect (cur l)" "fits (cur l)" "rect (next l)"
    and "h (next l) = h (cur l)" "w (next l) = w (cur l)" "0 \<le> w (cur l)"
  shows "\<exists>l'. Next l = Inr l'
           \<and> rect (cur l') \<and> h (cur l') = h (cur l) \<and> w (cur l') = w (cur l)
           \<and> rect (next l') \<and> h (next l') = w (cur l) \<and> w (next l') = h (cur l)"
proof -
  have "0 \<le> h (cur l)" using assms(1) by (auto simp: rect_def)
  then show ?thesis
    using assms(6) Next_step [OF assms] rect_next_table [of "cur l"]
    by (simp add: rect_def list_all_iff)
qed

text \<open>
  C2. The invariant "current and next have identical dimensions" holds after
  \<open>NewLife\<close> and is broken by the first \<open>Next\<close> when the height differs from the
  width: \<open>NewField(l.cur.w, l.cur.h)\<close> passes the width as the height. On a 1 x 2
  life, the current field is 1 x 2 and the next field 2 x 1 after one call.
\<close>

theorem Next_exchanges_dimensions_of_next:
  "NewLife 1 2 [[False, False]] =
     Inr \<lparr>cur = \<lparr>cs = [[False, False]], w = 2, h = 1\<rparr>,
          next = \<lparr>cs = [[False, False]], w = 2, h = 1\<rparr>, gen = 0\<rparr>
   \<and> Next \<lparr>cur = \<lparr>cs = [[False, False]], w = 2, h = 1\<rparr>,
            next = \<lparr>cs = [[False, False]], w = 2, h = 1\<rparr>, gen = 0\<rparr> =
     Inr \<lparr>cur = \<lparr>cs = [[False, False]], w = 2, h = 1\<rparr>,
          next = \<lparr>cs = [[False], [False]], w = 1, h = 2\<rparr>, gen = 1\<rparr>"
  by code_simp

text \<open>
  C3. The same exchange makes the second \<open>Next\<close> lose cells. A 4 x 5 life holds the
  2 x 2 block in columns 3 and 4 of rows 1 and 2, a still life. The first call
  computes every cell; it leaves a 5 x 4 field as \<open>next\<close>. In the second call
  \<open>NextGen\<close> is true at \<open>(1, 4)\<close>, \<open>Set\<close> on the 5 x 4 field refuses column 4 and \<open>Next\<close>
  drops the error: the new current field is 5 x 4 and has lost column 4 of the
  block.
\<close>

theorem Next_second_call_drops_cells:
  "NewLife 4 5 [[False, False, False, False, False], [False, False, False, True, True],
               [False, False, False, True, True], [False, False, False, False, False]] =
     Inr \<lparr>cur = \<lparr>cs = [[False, False, False, False, False], [False, False, False, True, True],
                       [False, False, False, True, True], [False, False, False, False, False]],
                  w = 5, h = 4\<rparr>,
          next = \<lparr>cs = [[False, False, False, False, False], [False, False, False, False, False],
                        [False, False, False, False, False], [False, False, False, False, False]],
                  w = 5, h = 4\<rparr>,
          gen = 0\<rparr>
   \<and> Next \<lparr>cur = \<lparr>cs = [[False, False, False, False, False], [False, False, False, True, True],
                         [False, False, False, True, True], [False, False, False, False, False]],
                    w = 5, h = 4\<rparr>,
            next = \<lparr>cs = [[False, False, False, False, False], [False, False, False, False, False],
                          [False, False, False, False, False], [False, False, False, False, False]],
                    w = 5, h = 4\<rparr>,
            gen = 0\<rparr> =
     Inr \<lparr>cur = \<lparr>cs = [[False, False, False, False, False], [False, False, False, True, True],
                       [False, False, False, True, True], [False, False, False, False, False]],
                  w = 5, h = 4\<rparr>,
          next = \<lparr>cs = [[False, False, False, False], [False, False, False, False],
                        [False, False, False, False], [False, False, False, False],
                        [False, False, False, False]],
                  w = 4, h = 5\<rparr>,
          gen = 1\<rparr>
   \<and> NextGen \<lparr>cs = [[False, False, False, False, False], [False, False, False, True, True],
                     [False, False, False, True, True], [False, False, False, False, False]],
                w = 5, h = 4\<rparr> 1 4 = Inr True
   \<and> Set \<lparr>cs = [[False, False, False, False], [False, False, False, False],
                 [False, False, False, False], [False, False, False, False],
                 [False, False, False, False]],
            w = 4, h = 5\<rparr> 1 4 True =
     Inr (\<lparr>cs = [[False, False, False, False], [False, False, False, False],
                 [False, False, False, False], [False, False, False, False],
                 [False, False, False, False]],
            w = 4, h = 5\<rparr>, Some OutOfField)
   \<and> Next \<lparr>cur = \<lparr>cs = [[False, False, False, False, False], [False, False, False, True, True],
                         [False, False, False, True, True], [False, False, False, False, False]],
                    w = 5, h = 4\<rparr>,
            next = \<lparr>cs = [[False, False, False, False], [False, False, False, False],
                          [False, False, False, False], [False, False, False, False],
                          [False, False, False, False]],
                    w = 4, h = 5\<rparr>,
            gen = 1\<rparr> =
     Inr \<lparr>cur = \<lparr>cs = [[False, False, False, False], [False, False, False, True],
                       [False, False, False, True], [False, False, False, False],
                       [False, False, False, False]],
                  w = 4, h = 5\<rparr>,
          next = \<lparr>cs = [[False, False, False, False, False], [False, False, False, False, False],
                        [False, False, False, False, False], [False, False, False, False, False]],
                  w = 5, h = 4\<rparr>,
          gen = 2\<rparr>"
  by code_simp

section \<open>NewLife\<close>

text \<open>
  What \<open>NewLife\<close> checks, for a positive height: the number of rows and the length of
  the first row.
\<close>

lemma NewLife_checks:
  assumes "0 < nh" "0 \<le> nw"
  shows "NewLife nh nw init =
     (if int (length init) = nh \<and> int (length (hd init)) = nw
      then Inr \<lparr>cur = \<lparr>cs = init, w = nw, h = nh\<rparr>,
                next = \<lparr>cs = replicate (nat nh) (replicate (nat nw) False), w = nw, h = nh\<rparr>,
                gen = 0\<rparr>
      else Inl (Returns WrongInitSize))"
  using assms by (cases init) (auto simp: NewLife_def NewField_def index_def)

text \<open>
  C5. \<open>NewLife\<close> compares \<open>len(init)\<close> with the height and \<open>len(init[0])\<close> with the
  width, and no other row. A pattern of two rows whose second row has one cell is
  accepted for a 2 x 2 life, and the next call of \<open>Next\<close> panics on the short row.
\<close>

theorem NewLife_accepts_ragged_pattern:
  "NewLife 2 2 [[False, False], [False]] =
     Inr \<lparr>cur = \<lparr>cs = [[False, False], [False]], w = 2, h = 2\<rparr>,
          next = \<lparr>cs = [[False, False], [False, False]], w = 2, h = 2\<rparr>, gen = 0\<rparr>
   \<and> Next \<lparr>cur = \<lparr>cs = [[False, False], [False]], w = 2, h = 2\<rparr>,
            next = \<lparr>cs = [[False, False], [False, False]], w = 2, h = 2\<rparr>, gen = 0\<rparr> =
     Inl IndexOutOfRange"
  by code_simp


text \<open>
  C10. \<open>NewLife(0, w, [])\<close>: the declared height 0 equals \<open>len(init)\<close>, so the check goes
  on to \<open>len(init[0])\<close>, which panics with an index out of range, for every width; the
  error "Wrong init size" is not returned.
\<close>

theorem NewLife_zero_height_panics:
  "NewLife 0 nw [] = Inl (Panics IndexOutOfRange)"
  by (simp add: NewLife_def NewField_def index_def)

section \<open>The beacon\<close>

lemma inside_boxD: "inside_box p \<Longrightarrow> p r c \<Longrightarrow> 1 \<le> r \<and> r \<le> 4 \<and> 1 \<le> c \<and> c \<le> 4"
  by (simp add: inside_box_def)

lemma beacon_inside: "inside_box beacon"
  by (auto simp: inside_box_def beacon_def)

lemma beacon_full_inside: "inside_box beacon_full"
  by (auto simp: inside_box_def beacon_full_def)

text \<open>
  A pattern inside the box has no live cell next to a cell outside rows and columns 0
  to 5; inside, the 36 cells are computed one by one.
\<close>

lemma plane_next_outside:
  assumes "inside_box p" "\<not> (0 \<le> r \<and> r \<le> 5 \<and> 0 \<le> c \<and> c \<le> 5)"
  shows "\<not> plane_next p r c"
proof -
  have "filter (\<lambda>(i, j). p (r + i) (c + j)) neighbours = []"
    unfolding filter_empty_conv using assms
    by (fastforce simp: neighbours_def inside_box_def)
  then show ?thesis by (simp add: plane_next_def plane_count_def)
qed

lemma small_cases: "0 \<le> r \<Longrightarrow> r \<le> 5 \<Longrightarrow> r = 0 \<or> r = 1 \<or> r = 2 \<or> r = 3 \<or> r = 4 \<or> r = (5::int)"
  by arith

lemma plane_next_beacon: "plane_next beacon r c = beacon_full r c"
proof (cases "0 \<le> r \<and> r \<le> 5 \<and> 0 \<le> c \<and> c \<le> 5")
  case True
  then have "r = 0 \<or> r = 1 \<or> r = 2 \<or> r = 3 \<or> r = 4 \<or> r = 5"
    and "c = 0 \<or> c = 1 \<or> c = 2 \<or> c = 3 \<or> c = 4 \<or> c = 5"
    by (simp_all add: small_cases)
  then show ?thesis
    by (elim disjE)
      (simp_all add: plane_next_def plane_count_def neighbours_def beacon_def beacon_full_def)
next
  case False
  then have "\<not> plane_next beacon r c" by (intro plane_next_outside beacon_inside)
  moreover have "\<not> beacon_full r c"
    using False inside_boxD [OF beacon_full_inside, of r c] by auto
  ultimately show ?thesis by simp
qed

lemma plane_next_beacon_full: "plane_next beacon_full r c = beacon r c"
proof (cases "0 \<le> r \<and> r \<le> 5 \<and> 0 \<le> c \<and> c \<le> 5")
  case True
  then have "r = 0 \<or> r = 1 \<or> r = 2 \<or> r = 3 \<or> r = 4 \<or> r = 5"
    and "c = 0 \<or> c = 1 \<or> c = 2 \<or> c = 3 \<or> c = 4 \<or> c = 5"
    by (simp_all add: small_cases)
  then show ?thesis
    by (elim disjE)
      (simp_all add: plane_next_def plane_count_def neighbours_def beacon_def beacon_full_def)
next
  case False
  then have "\<not> plane_next beacon_full r c" by (intro plane_next_outside beacon_full_inside)
  moreover have "\<not> beacon r c"
    using False inside_boxD [OF beacon_inside, of r c] by auto
  ultimately show ?thesis by simp
qed


text \<open>
  On a grid of at least 6 x 6 cells the neighbours on the torus of a pattern inside
  the box are its neighbours on the plane: a wrapped index lands in row or column 0
  or \<open>n - 1\<close>, outside the box.
\<close>

lemma pattern_cell:
  "i < n \<Longrightarrow> j < n \<Longrightarrow> pattern n p ! i ! j = p (int i) (int j)"
  by (simp add: pattern_def)

lemma rect_pattern: "rect \<lparr>cs = pattern n p, w = int n, h = int n\<rparr>"
  by (simp add: rect_def pattern_def list_all_iff)

lemma torus_cell_pattern:
  assumes "0 < n"
  shows "torus_cell \<lparr>cs = pattern n p, w = int n, h = int n\<rparr> r c = p (r mod int n) (c mod int n)"
proof -
  have "0 \<le> r mod int n" "r mod int n < int n" "0 \<le> c mod int n" "c mod int n < int n"
    using assms by simp_all
  then show ?thesis
    by (simp add: torus_cell_def pattern_cell nat_less_iff)
qed

lemma wrap_inside_box:
  assumes "inside_box p" "6 \<le> n" "- 1 \<le> r" "r \<le> int n" "- 1 \<le> c" "c \<le> int n"
  shows "p (r mod int n) (c mod int n) = p r c"
proof (cases "0 \<le> r \<and> r < int n \<and> 0 \<le> c \<and> c < int n")
  case True
  then show ?thesis by simp
next
  case False
  have r: "r = - 1 \<or> r = int n \<or> (0 \<le> r \<and> r < int n)" using assms by arith
  have c: "c = - 1 \<or> c = int n \<or> (0 \<le> c \<and> c < int n)" using assms by arith
  have m: "(- 1) mod int n = int n - 1" using assms(2) by (simp add: zmod_minus1)
  have "\<not> p r c"
    using False r c assms(2) inside_boxD [OF assms(1), of r c] by auto
  moreover have "\<not> p (r mod int n) (c mod int n)"
    using False r c m assms(2) inside_boxD [OF assms(1), of "r mod int n" "c mod int n"]
    by auto
  ultimately show ?thesis by simp
qed

lemma will_be_alive_pattern:
  assumes "inside_box p" "6 \<le> n" "i < n" "j < n"
  shows "will_be_alive \<lparr>cs = pattern n p, w = int n, h = int n\<rparr> (int i) (int j)
     = plane_next p (int i) (int j)"
proof -
  have t: "\<And>a b. (a, b) \<in> set neighbours \<Longrightarrow>
      torus_cell \<lparr>cs = pattern n p, w = int n, h = int n\<rparr> (int i + a) (int j + b)
      = p (int i + a) (int j + b)"
  proof -
    fix a b assume "(a, b) \<in> set neighbours"
    then have "- 1 \<le> a" "a \<le> 1" "- 1 \<le> b" "b \<le> 1"
      by (auto simp: neighbours_def)
    then have "p ((int i + a) mod int n) ((int j + b) mod int n) = p (int i + a) (int j + b)"
      using assms by (intro wrap_inside_box) simp_all
    then show "torus_cell \<lparr>cs = pattern n p, w = int n, h = int n\<rparr> (int i + a) (int j + b)
      = p (int i + a) (int j + b)"
      using assms(2) by (simp add: torus_cell_pattern)
  qed
  have "live_neighbours \<lparr>cs = pattern n p, w = int n, h = int n\<rparr> (int i) (int j)
      = plane_count p (int i) (int j)"
    unfolding live_neighbours_def plane_count_def
    by (rule arg_cong [where f = length], rule filter_cong) (auto simp: t)
  then show ?thesis
    using assms by (simp add: will_be_alive_def plane_next_def pattern_cell)
qed

lemma next_table_pattern:
  assumes "inside_box p" "6 \<le> n"
  shows "next_table \<lparr>cs = pattern n p, w = int n, h = int n\<rparr> = pattern n (plane_next p)"
  using assms by (simp add: next_table_def pattern_def will_be_alive_pattern [unfolded pattern_def])


lemma Next_pattern:
  assumes "inside_box p" "6 \<le> n" "int n < 2 ^ 62"
  shows "Next \<lparr>cur = \<lparr>cs = pattern n p, w = int n, h = int n\<rparr>,
               next = \<lparr>cs = replicate n (replicate n False), w = int n, h = int n\<rparr>,
               gen = g\<rparr> =
     Inr \<lparr>cur = \<lparr>cs = pattern n (plane_next p), w = int n, h = int n\<rparr>,
          next = \<lparr>cs = replicate n (replicate n False), w = int n, h = int n\<rparr>,
          gen = wrap64 (g + 1)\<rparr>"
proof -
  let ?l = "\<lparr>cur = \<lparr>cs = pattern n p, w = int n, h = int n\<rparr>,
             next = \<lparr>cs = replicate n (replicate n False), w = int n, h = int n\<rparr>,
             gen = g\<rparr>"
  have "rect (cur ?l)" by (simp add: rect_pattern)
  moreover have "fits (cur ?l)" using assms(3) by (simp add: fits_def)
  moreover have "rect (next ?l)" by (simp add: rect_def list_all_iff)
  ultimately have "Next ?l =
     Inr \<lparr>cur = \<lparr>cs = next_table (cur ?l), w = w (cur ?l), h = h (cur ?l)\<rparr>,
          next = \<lparr>cs = replicate (nat (w (cur ?l))) (replicate (nat (h (cur ?l))) False),
                  w = h (cur ?l), h = w (cur ?l)\<rparr>,
          gen = wrap64 (gen ?l + 1)\<rparr>"
    by (intro Next_step) simp_all
  then show ?thesis
    using assms(1,2) by (simp add: next_table_pattern)
qed

lemma pattern_cong:
  "(\<And>r c. p r c = q r c) \<Longrightarrow> pattern n p = pattern n q"
  by (simp add: pattern_def)

text \<open>
  C7. On an \<open>n x n\<close> grid with \<open>n \<ge> 6\<close> (and \<open>n < 2 ^ 62\<close>, as for every grid in
  memory), \<open>NewLife\<close> accepts the beacon, two calls of
  \<open>Next\<close> succeed, the current field after the second call is the initial one, and the
  current field after the first call is not (it holds the eight-cell phase).
\<close>

theorem beacon_returns_after_two_calls:
  assumes "6 \<le> n" "int n < 2 ^ 62"
  shows "\<exists>l0 l1 l2. NewLife (int n) (int n) (pattern n beacon) = Inr l0
           \<and> Next l0 = Inr l1 \<and> Next l1 = Inr l2
           \<and> cs (cur l0) = pattern n beacon
           \<and> cur l2 = cur l0 \<and> cur l1 \<noteq> cur l0"
proof -
  let ?blank = "\<lparr>cs = replicate n (replicate n False), w = int n, h = int n\<rparr>"
  let ?l0 = "\<lparr>cur = \<lparr>cs = pattern n beacon, w = int n, h = int n\<rparr>, next = ?blank, gen = 0\<rparr>"
  let ?l1 = "\<lparr>cur = \<lparr>cs = pattern n beacon_full, w = int n, h = int n\<rparr>, next = ?blank,
              gen = wrap64 (0 + 1)\<rparr>"
  let ?l2 = "\<lparr>cur = \<lparr>cs = pattern n beacon, w = int n, h = int n\<rparr>, next = ?blank,
              gen = wrap64 (wrap64 (0 + 1) + 1)\<rparr>"
  have hd: "length (hd (pattern n beacon)) = n"
    using assms(1) by (simp add: pattern_def hd_map)
  have 0: "NewLife (int n) (int n) (pattern n beacon) = Inr ?l0"
    using assms(1) hd by (simp add: NewLife_checks) (simp add: pattern_def)
  have 1: "Next ?l0 = Inr ?l1"
    using Next_pattern [OF beacon_inside assms, of 0]
      pattern_cong [of "plane_next beacon" beacon_full n]
    by (simp add: plane_next_beacon)
  have 2: "Next ?l1 = Inr ?l2"
    using Next_pattern [OF beacon_full_inside assms, of "wrap64 (0 + 1)"]
      pattern_cong [of "plane_next beacon_full" beacon n]
    by (simp add: plane_next_beacon_full)
  have "pattern n beacon_full ! 2 ! 2 \<noteq> pattern n beacon ! 2 ! 2"
    using assms(1) by (simp add: pattern_cell beacon_def beacon_full_def)
  then have 3: "pattern n beacon_full \<noteq> pattern n beacon" by auto
  show ?thesis
    using 0 1 2 3 by (intro exI [of _ ?l0] exI [of _ ?l1] exI [of _ ?l2]) simp
qed

lemma pattern_6_beacon:
  "pattern 6 beacon =
     [[False, False, False, False, False, False],
      [False, True, True, False, False, False],
      [False, True, False, False, False, False],
      [False, False, False, False, True, False],
      [False, False, False, True, True, False],
      [False, False, False, False, False, False]]"
  by code_simp

theorem beacon_returns_after_two_calls_witness:
  "\<exists>l0 l1 l2. NewLife 6 6 (pattern 6 beacon) = Inr l0
           \<and> Next l0 = Inr l1 \<and> Next l1 = Inr l2
           \<and> cs (cur l0) = pattern 6 beacon
           \<and> cur l2 = cur l0 \<and> cur l1 \<noteq> cur l0"
  using beacon_returns_after_two_calls [of 6] by simp

section \<open>NewLifeFromFile\<close>

declare read_rows.simps [simp del]

lemma ReadBytes_line:
  "delim \<notin> set l \<Longrightarrow> ReadBytes delim (l @ delim # reader) = ((l @ [delim], None), reader)"
  by (induction l) auto

lemma ReadBytes_unterminated:
  "delim \<notin> set l \<Longrightarrow> ReadBytes delim l = ((l, Some EOF), [])"
  by (induction l) auto

lemma bytesToBool_map: "bytesToBool l = map (\<lambda>c. c = CHR ''o'') l"
  by (induction l) auto

lemma length_bytesToBool: "length (bytesToBool l) = length l"
  by (induction l) auto

lemma nat_one_plus_int: "nat (1 + int n) = Suc n"
  by simp

lemma read_rows_lines:
  assumes "\<forall>l\<in>set ls. newline \<notin> set l" "newline \<notin> set rest"
  shows "read_rows colsize (lines_text ls @ rest) init =
     (if \<forall>l\<in>set ls. int (length l) + 1 = colsize
      then Inr (init @ map (\<lambda>l. bytesToBool (l @ [newline])) ls)
      else Inl (Returns ColumnSizeNotAppropriate))"
  using assms
proof (induction ls arbitrary: init)
  case Nil
  then show ?case
    by (subst read_rows.simps) (simp add: lines_text_def ReadBytes_unterminated)
next
  case (Cons l ls)
  have rd: "ReadBytes newline (lines_text (l # ls) @ rest) = ((l @ [newline], None), lines_text ls @ rest)"
    using Cons.prems ReadBytes_line [of newline l "lines_text ls @ rest"]
    by (simp add: lines_text_def)
  show ?case
    using Cons by (subst read_rows.simps) (simp add: rd)
qed


lemma NewLifeFromFile_lines_text:
  assumes "ReadFile path = Inr (lines_text (l0 # ls) @ rest)"
    and "\<forall>l\<in>set (l0 # ls). newline \<notin> set l" "newline \<notin> set rest"
  shows "NewLifeFromFile ReadFile path =
     (if \<forall>l\<in>set ls. length l = length l0
      then Inr \<lparr>cur = \<lparr>cs = map (\<lambda>l. map (\<lambda>c. c = CHR ''o'') (l @ [newline])) (l0 # ls),
                        w = int (length l0) + 1, h = int (length ls) + 1\<rparr>,
                next = \<lparr>cs = replicate (Suc (length ls)) (replicate (Suc (length l0)) False),
                        w = int (length l0) + 1, h = int (length ls) + 1\<rparr>,
                gen = 0\<rparr>
      else Inl (Returns ColumnSizeNotAppropriate))"
proof -
  have first: "ReadBytes newline (lines_text (l0 # ls) @ rest) =
      ((l0 @ [newline], None), lines_text ls @ rest)"
    using assms(2) ReadBytes_line [of newline l0 "lines_text ls @ rest"]
    by (simp add: lines_text_def)
  have rows: "read_rows (1 + int (length l0)) (lines_text ls @ rest)
        [bytesToBool (l0 @ [newline])] =
     (if \<forall>l\<in>set ls. length l = length l0
      then Inr (bytesToBool (l0 @ [newline]) # map (\<lambda>l. bytesToBool (l @ [newline])) ls)
      else Inl (Returns ColumnSizeNotAppropriate))"
    using assms(2,3)
      read_rows_lines [of ls rest "1 + int (length l0)" "[bytesToBool (l0 @ [newline])]"]
    by simp
  have "NewLifeFromFile ReadFile path =
     (if \<forall>l\<in>set ls. length l = length l0
      then Inr \<lparr>cur = \<lparr>cs = map (\<lambda>l. bytesToBool (l @ [newline])) (l0 # ls),
                        w = int (length l0) + 1, h = int (length ls) + 1\<rparr>,
                next = \<lparr>cs = replicate (Suc (length ls)) (replicate (Suc (length l0)) False),
                        w = int (length l0) + 1, h = int (length ls) + 1\<rparr>,
                gen = 0\<rparr>
      else Inl (Returns ColumnSizeNotAppropriate))"
    using assms(1)
    by (simp add: NewLifeFromFile_def first rows NewLife_checks length_bytesToBool
        nat_one_plus_int)
  then show ?thesis
    by (simp add: bytesToBool_map)
qed

text \<open>
  C6. A text with no terminated line, the empty text among them, fails (the first
  read returns \<open>io.EOF\<close>). A text of terminated
  lines, one of which differs in length from the first, fails with "column size is
  not appropriate"; two lines of unequal length are the case \<open>ls = [l]\<close>. A text of
  \<open>H\<close> terminated lines, each \<open>W\<close> bytes long with its terminator, gives a life whose
  current field has height \<open>H\<close>, width \<open>W\<close> and a cell alive exactly where the line
  holds \<open>o\<close>; the terminator, like every other byte, is a dead cell.
\<close>

theorem NewLifeFromFile_from_lines:
  "(ReadFile path = Inr buf \<and> newline \<notin> set buf
      \<longrightarrow> NewLifeFromFile ReadFile path = Inl (Returns EOF))
   \<and> (ReadFile path = Inr (lines_text (l0 # ls)) \<and> (\<forall>l\<in>set (l0 # ls). newline \<notin> set l)
        \<and> (\<exists>l\<in>set ls. length l \<noteq> length l0)
      \<longrightarrow> NewLifeFromFile ReadFile path = Inl (Returns ColumnSizeNotAppropriate))
   \<and> (ReadFile path = Inr (lines_text lns) \<and> lns \<noteq> []
        \<and> (\<forall>l\<in>set lns. newline \<notin> set l \<and> length l + 1 = W)
      \<longrightarrow> (\<exists>life. NewLifeFromFile ReadFile path = Inr life
             \<and> h (cur life) = int (length lns) \<and> w (cur life) = int W \<and> rect (cur life)
             \<and> cs (cur life) = map (\<lambda>l. map (\<lambda>c. c = CHR ''o'') (l @ [newline])) lns))"
proof (intro conjI impI)
  assume "ReadFile path = Inr buf \<and> newline \<notin> set buf"
  then show "NewLifeFromFile ReadFile path = Inl (Returns EOF)"
    by (simp add: NewLifeFromFile_def ReadBytes_unterminated)
next
  assume a: "ReadFile path = Inr (lines_text (l0 # ls)) \<and> (\<forall>l\<in>set (l0 # ls). newline \<notin> set l)
        \<and> (\<exists>l\<in>set ls. length l \<noteq> length l0)"
  then show "NewLifeFromFile ReadFile path = Inl (Returns ColumnSizeNotAppropriate)"
    using NewLifeFromFile_lines_text [of ReadFile path l0 ls "[]"] by auto
next
  assume a: "ReadFile path = Inr (lines_text lns) \<and> lns \<noteq> []
        \<and> (\<forall>l\<in>set lns. newline \<notin> set l \<and> length l + 1 = W)"
  then obtain l0 ls where lns: "lns = l0 # ls" by (cases lns) auto
  have same: "\<forall>l\<in>set ls. length l = length l0" using a lns by auto
  have W: "W = length l0 + 1" using a lns by auto
  have "NewLifeFromFile ReadFile path =
     Inr \<lparr>cur = \<lparr>cs = map (\<lambda>l. map (\<lambda>c. c = CHR ''o'') (l @ [newline])) (l0 # ls),
                  w = int (length l0) + 1, h = int (length ls) + 1\<rparr>,
          next = \<lparr>cs = replicate (Suc (length ls)) (replicate (Suc (length l0)) False),
                  w = int (length l0) + 1, h = int (length ls) + 1\<rparr>,
          gen = 0\<rparr>"
    using a lns same NewLifeFromFile_lines_text [of ReadFile path l0 ls "[]"] by simp
  then show "\<exists>life. NewLifeFromFile ReadFile path = Inr life
             \<and> h (cur life) = int (length lns) \<and> w (cur life) = int W \<and> rect (cur life)
             \<and> cs (cur life) = map (\<lambda>l. map (\<lambda>c. c = CHR ''o'') (l @ [newline])) lns"
    using lns same W by (simp add: rect_def list_all_iff)
qed

theorem NewLifeFromFile_from_lines_witness:
  "NewLifeFromFile (\<lambda>p. Inr []) ''init.txt'' = Inl (Returns EOF)
   \<and> NewLifeFromFile (\<lambda>p. Inr ''oo'') ''init.txt'' = Inl (Returns EOF)
   \<and> NewLifeFromFile (\<lambda>p. Inr (lines_text [''o'', ''oo''])) ''init.txt''
       = Inl (Returns ColumnSizeNotAppropriate)
   \<and> (\<exists>life. NewLifeFromFile (\<lambda>p. Inr (lines_text ['' o'', ''o ''])) ''init.txt'' = Inr life
         \<and> h (cur life) = 2 \<and> w (cur life) = 3 \<and> rect (cur life)
         \<and> cs (cur life) = [[False, True, False], [True, False, False]])"
  using
    NewLifeFromFile_from_lines [where ReadFile = "\<lambda>p. Inr []" and path = "''init.txt''"
      and buf = "[]"]
    NewLifeFromFile_from_lines [where ReadFile = "\<lambda>p. Inr ''oo''" and path = "''init.txt''"
      and buf = "''oo''"]
    NewLifeFromFile_from_lines [where ReadFile = "\<lambda>p. Inr (lines_text [''o'', ''oo''])"
      and path = "''init.txt''" and ?l0.0 = "''o''" and ls = "[''oo'']"]
    NewLifeFromFile_from_lines [where ReadFile = "\<lambda>p. Inr (lines_text ['' o'', ''o ''])"
      and path = "''init.txt''" and lns = "['' o'', ''o '']" and W = 3]
  by (simp add: newline_def)

text \<open>
  C9. After \<open>H\<close> terminated lines of equal length, a last line without a terminator,
  whatever its length, is read by the loop together with \<open>io.EOF\<close> and dropped: the
  load succeeds, and the field has the \<open>H\<close> terminated lines and no other row.
\<close>

theorem NewLifeFromFile_drops_unterminated_last_line:
  assumes "ReadFile path = Inr (lines_text lns @ rest)" "lns \<noteq> []"
    and "\<forall>l\<in>set lns. newline \<notin> set l \<and> length l + 1 = W"
    and "rest \<noteq> []" "newline \<notin> set rest"
  shows "\<exists>life. NewLifeFromFile ReadFile path = Inr life
           \<and> h (cur life) = int (length lns) \<and> w (cur life) = int W
           \<and> cs (cur life) = map (\<lambda>l. map (\<lambda>c. c = CHR ''o'') (l @ [newline])) lns"
proof -
  obtain l0 ls where lns: "lns = l0 # ls" using assms(2) by (cases lns) auto
  have same: "\<forall>l\<in>set ls. length l = length l0" using assms(3) lns by auto
  have W: "W = length l0 + 1" using assms(3) lns by auto
  have "NewLifeFromFile ReadFile path =
     Inr \<lparr>cur = \<lparr>cs = map (\<lambda>l. map (\<lambda>c. c = CHR ''o'') (l @ [newline])) (l0 # ls),
                  w = int (length l0) + 1, h = int (length ls) + 1\<rparr>,
          next = \<lparr>cs = replicate (Suc (length ls)) (replicate (Suc (length l0)) False),
                  w = int (length l0) + 1, h = int (length ls) + 1\<rparr>,
          gen = 0\<rparr>"
    using assms lns same NewLifeFromFile_lines_text [of ReadFile path l0 ls rest] by simp
  then show ?thesis using lns W by simp
qed

theorem NewLifeFromFile_drops_unterminated_last_line_witness:
  "\<exists>life. NewLifeFromFile (\<lambda>p. Inr (lines_text [''o '', '' o''] @ ''ooo'')) ''init.txt'' = Inr life
      \<and> h (cur life) = 2 \<and> w (cur life) = 3
      \<and> cs (cur life) = [[True, False, False], [False, True, False]]"
  using NewLifeFromFile_drops_unterminated_last_line
    [where ReadFile = "\<lambda>p. Inr (lines_text [''o '', '' o''] @ ''ooo'')"
      and path = "''init.txt''" and lns = "[''o '', '' o'']" and W = 3 and rest = "''ooo''"]
  by (simp add: newline_def)

end
